theory Spec2Isabelle
  imports Main "HOL-Library.Word" "HOL-Library.Sublist"
begin

unbundle bit_operations_syntax

section \<open>Length-prefixed file streaming over TCP (main.go)\<close>

text \<open>
  The program has three procedures: \<open>FileServer.start\<close> (listen and accept),
  \<open>FileServer.read\<close> (the per-connection receiver) and \<open>send\<close> (the client).
  They are embedded below together with the parts of Go's standard library they call
  (\<open>encoding/binary\<close>, \<open>io.ReadFull\<close>, \<open>io.CopyN\<close>, \<open>bytes.Buffer.ReadFrom\<close>,
  \<open>io.LimitedReader\<close>), the latter following the library's sources.

  Go's \<open>int64\<close> is a \<open>64 word\<close> read through \<open>sint\<close>; Go's \<open>int\<close> is taken to be
  64 bits wide as well. A byte is an \<open>8 word\<close>.
\<close>

type_synonym byte = "8 word"
type_synonym int64 = "64 word"

datatype error =
    EOF                 \<comment> \<open>\<open>io.EOF\<close>\<close>
  | ErrUnexpectedEOF    \<comment> \<open>\<open>io.ErrUnexpectedEOF\<close>\<close>
  | ErrShortWrite       \<comment> \<open>\<open>io.ErrShortWrite\<close>\<close>
  | OpError string      \<comment> \<open>any error of package \<open>net\<close> (reset, refused, ...)\<close>
  | RandError string    \<comment> \<open>a failure of \<open>crypto/rand\<close>\<close>

subsection \<open>encoding/binary, little endian\<close>

text \<open>
  \<open>binary.LittleEndian.PutUint64(b, v)\<close> stores \<open>byte(v >> 8*i)\<close> at \<open>b[i]\<close>;
  \<open>binary.LittleEndian.Uint64(b)\<close> is \<open>uint64(b[0]) | uint64(b[1])<<8 | ... | uint64(b[7])<<56\<close>.
  Both are only ever called on the 8-byte scratch slice that \<open>binary.Read\<close> and
  \<open>binary.Write\<close> allocate for an \<open>int64\<close>, so the indices below are in range.
\<close>

definition LittleEndian_PutUint64 :: "64 word \<Rightarrow> byte list" where
  "LittleEndian_PutUint64 v =
     [ucast v, ucast (drop_bit 8 v), ucast (drop_bit 16 v), ucast (drop_bit 24 v),
      ucast (drop_bit 32 v), ucast (drop_bit 40 v), ucast (drop_bit 48 v), ucast (drop_bit 56 v)]"

definition LittleEndian_Uint64 :: "byte list \<Rightarrow> 64 word" where
  "LittleEndian_Uint64 b =
     ucast (b ! 0) OR push_bit 8 (ucast (b ! 1)) OR push_bit 16 (ucast (b ! 2))
     OR push_bit 24 (ucast (b ! 3)) OR push_bit 32 (ucast (b ! 4)) OR push_bit 40 (ucast (b ! 5))
     OR push_bit 48 (ucast (b ! 6)) OR push_bit 56 (ucast (b ! 7))"

text \<open>
  The unsigned little-endian value of a byte sequence, as the wire format defines it:
  the byte at index \<open>i\<close> weighs \<open>256 ^ i\<close>. It is the yardstick the decoded size is
  compared with.
\<close>

fun le_value :: "byte list \<Rightarrow> int" where
  "le_value [] = 0"
| "le_value (b # bs) = uint b + 256 * le_value bs"

subsection \<open>The receiving side of a connection\<close>

text \<open>
  What the peer and the network do to a connection is a list of events, in order: a
  segment of bytes arrives (\<open>Data\<close>), or the connection breaks with an error
  (\<open>Fail\<close>). When the list is exhausted the peer has closed the connection.

  \<open>conn_Read k c\<close> is \<open>conn.Read(p)\<close> with \<open>len(p) = k\<close>, \<open>k > 0\<close>: a TCP read returns
  either some bytes and no error, or no bytes and an error, \<open>io.EOF\<close> once the peer has
  closed. A segment longer than \<open>k\<close> is handed out in pieces. It returns the bytes, the
  error and the connection that is left.
\<close>

datatype event = Data "byte list" | Fail error

type_synonym conn = "event list"

fun conn_Read :: "nat \<Rightarrow> conn \<Rightarrow> byte list \<times> error option \<times> conn" where
  "conn_Read k [] = ([], Some EOF, [])"
| "conn_Read k (Fail e # c) = ([], Some e, c)"
| "conn_Read k (Data bs # c) =
     (if length bs \<le> k then (bs, None, c)
      else (take k bs, None, Data (drop k bs) # c))"

text \<open>
  \<open>io.ReadFull(r, buf)\<close> is \<open>io.ReadAtLeast(r, buf, len(buf))\<close>:
  \<^verbatim>\<open>
  for n < min && err == nil { nn, err = r.Read(buf[n:]); n += nn }
  if n >= min { err = nil } else if n > 0 && err == EOF { err = ErrUnexpectedEOF }
  \<close>
  \<open>ReadAtLeast_loop\<close> is the loop, with \<open>got\<close> the bytes \<open>buf[:n]\<close> read so far.
\<close>

function ReadAtLeast_loop :: "nat \<Rightarrow> byte list \<Rightarrow> conn \<Rightarrow> byte list \<times> error option \<times> conn" where
  "ReadAtLeast_loop m got c =
     (if length got < m then
        (case conn_Read (m - length got) c of
           (bs, None, c') \<Rightarrow> ReadAtLeast_loop m (got @ bs) c'
         | (bs, Some e, c') \<Rightarrow> (got @ bs, Some e, c'))
      else (got, None, c))"
  by pat_completeness auto
termination
proof (relation "measure (\<lambda>(m, got, c). (m - length got) + length c)")
  show "wf (measure (\<lambda>(m, got, c). (m - length got) + length c))" by simp
next
  fix m :: nat and got :: "byte list" and c :: conn and x y xa ya
  assume lt: "length got < m"
    and rd: "(x, y) = conn_Read (m - length got) c" "(xa, ya) = y" "xa = None"
  from rd have r: "conn_Read (m - length got) c = (x, None, ya)" by simp
  have "(m - length got - length x) + length ya < (m - length got) + length c"
  proof (cases c)
    case Nil
    with r show ?thesis by simp
  next
    case (Cons ev c0)
    with r lt show ?thesis by (cases ev) (auto split: if_splits)
  qed
  then show "((m, got @ x, ya), (m, got, c)) \<in> measure (\<lambda>(m, got, c). (m - length got) + length c)"
    by simp
qed

definition io_ReadFull :: "conn \<Rightarrow> nat \<Rightarrow> byte list \<times> error option \<times> conn" where
  "io_ReadFull c m =
     (case ReadAtLeast_loop m [] c of
        (got, err, c') \<Rightarrow>
          (if length got \<ge> m then (got, None, c')
           else if length got > 0 \<and> err = Some EOF then (got, Some ErrUnexpectedEOF, c')
           else (got, err, c')))"

text \<open>
  \<open>binary.Read(r, binary.LittleEndian, &size)\<close> for \<open>size\<close> an \<open>int64\<close> (the fast path):
  \<^verbatim>\<open>
  bs := make([]byte, 8)
  if _, err := io.ReadFull(r, bs); err != nil { return err }
  *data = int64(order.Uint64(bs))
  \<close>
  On an error the variable keeps the value it had. The result is the error, the value
  of the variable afterwards and the connection that is left.
\<close>

definition binary_Read :: "conn \<Rightarrow> int64 \<Rightarrow> error option \<times> int64 \<times> conn" where
  "binary_Read c old =
     (case io_ReadFull c 8 of
        (bs, Some e, c') \<Rightarrow> (Some e, old, c')
      | (bs, None, c') \<Rightarrow> (None, LittleEndian_Uint64 bs, c'))"

subsection \<open>io.LimitedReader, bytes.Buffer.ReadFrom, io.Copy and io.CopyN into a buffer\<close>

text \<open>
  \<open>io.LimitedReader\<close> wraps a reader \<open>R\<close> and the number \<open>N\<close> of bytes it may still hand out:
  \<^verbatim>\<open>
  if l.N <= 0 { return 0, EOF }
  if int64(len(p)) > l.N { p = p[0:l.N] }
  n, err = l.R.Read(p); l.N -= int64(n)
  \<close>
  The slice \<open>p\<close> is the spare room of the \<open>bytes.Buffer\<close>, which grows on demand (by at
  least \<open>bytes.MinRead\<close>); a segment that exceeds the room is read by several calls. The
  model leaves that split to the segments of the connection and asks for \<open>N\<close> bytes.
\<close>

record LimitedReader =
  R :: conn
  N :: int

definition LimitedReader_Read :: "LimitedReader \<Rightarrow> byte list \<times> error option \<times> LimitedReader" where
  "LimitedReader_Read l =
     (if N l \<le> 0 then ([], Some EOF, l)
      else (case conn_Read (nat (N l)) (R l) of
              (bs, err, c') \<Rightarrow> (bs, err, \<lparr>R = c', N = N l - int (length bs)\<rparr>)))"

text \<open>
  \<open>bytes.Buffer.ReadFrom(r)\<close> appends what it reads until the reader reports an error,
  and does not pass \<open>io.EOF\<close> on:
  \<^verbatim>\<open>
  for { m, e := r.Read(...); b.buf = b.buf[:i+m]; n += int64(m)
        if e == io.EOF { return n, nil }
        if e != nil { return n, e } }
  \<close>
  The arguments are the contents of the buffer, the reader and the count \<open>n\<close> so far.
\<close>

function Buffer_ReadFrom ::
  "byte list \<Rightarrow> LimitedReader \<Rightarrow> int \<Rightarrow> byte list \<times> LimitedReader \<times> int \<times> error option" where
  "Buffer_ReadFrom b l n =
     (case LimitedReader_Read l of
        (bs, Some e, l') \<Rightarrow>
          (if e = EOF then (b @ bs, l', n + int (length bs), None)
           else (b @ bs, l', n + int (length bs), Some e))
      | (bs, None, l') \<Rightarrow> Buffer_ReadFrom (b @ bs) l' (n + int (length bs)))"
  by pat_completeness auto
termination
proof (relation "measure (\<lambda>(b, l, n). nat (N l) + length (R l))")
  show "wf (measure (\<lambda>(b, l, n). nat (N l) + length (R l)))" by simp
next
  fix b :: "byte list" and l :: LimitedReader and n :: int and x y xa ya
  assume rd: "(x, y) = LimitedReader_Read l" "(xa, ya) = y" "xa = None"
  then have r: "LimitedReader_Read l = (x, None, ya)" by simp
  have pos: "0 < N l"
  proof (rule ccontr)
    assume "\<not> 0 < N l"
    with r show False by (simp add: LimitedReader_Read_def)
  qed
  have "nat (N ya) + length (R ya) < nat (N l) + length (R l)"
  proof (cases "R l")
    case Nil
    with r pos show ?thesis by (simp add: LimitedReader_Read_def)
  next
    case (Cons ev c0)
    with r pos show ?thesis
      by (cases ev) (auto simp: LimitedReader_Read_def split: if_splits)
  qed
  then show "((b @ x, ya, n + int (length x)), (b, l, n)) \<in> measure (\<lambda>(b, l, n). nat (N l) + length (R l))"
    by simp
qed

text \<open>
  \<open>io.Copy(dst, src)\<close>: a \<open>*bytes.Buffer\<close> implements \<open>io.ReaderFrom\<close>, so the copy is
  \<open>dst.ReadFrom(src)\<close>.
\<close>

definition io_Copy :: "byte list \<Rightarrow> LimitedReader \<Rightarrow> byte list \<times> LimitedReader \<times> int \<times> error option" where
  "io_Copy dst src = Buffer_ReadFrom dst src 0"

text \<open>
  \<open>io.CopyN(dst, src, n)\<close>:
  \<^verbatim>\<open>
  written, err = Copy(dst, LimitReader(src, n))
  if written == n { return n, nil }
  if written < n && err == nil { err = EOF }   // src stopped early; must have been EOF
  return
  \<close>
  The result is the pair \<open>(written, err)\<close>, the buffer and the connection afterwards.
\<close>

definition io_CopyN :: "byte list \<Rightarrow> conn \<Rightarrow> int64 \<Rightarrow> (int \<times> error option) \<times> byte list \<times> conn" where
  "io_CopyN dst src n =
     (case io_Copy dst \<lparr>R = src, N = sint n\<rparr> of
        (dst', l, written, err) \<Rightarrow>
          (if written = sint n then ((sint n, None), dst', R l)
           else if written < sint n \<and> err = None then ((written, Some EOF), dst', R l)
           else ((written, err), dst', R l)))"

subsection \<open>FileServer.read\<close>

text \<open>
  The handler of one connection owns the buffer \<open>buf\<close>, the variable \<open>size\<close> (here
  \<open>size'\<close>), the connection, and what it has printed on standard output:
  \<open>fmt.Println(buf.Bytes())\<close> and \<open>fmt.Printf("Received %d bytes\n", reqLen)\<close>.
\<close>

datatype printed = Println_bytes "byte list" | Printf_received int

record handler =
  buf :: "byte list"
  size' :: int64
  conn :: conn
  stdout :: "printed list"

text \<open>
  The \<open>for\<close> loop of \<open>read\<close> has no condition and may run forever, so the model counts
  iterations: \<open>read_loop k h\<close> runs at most \<open>k\<close> iterations from the state \<open>h\<close>. The loop
  is left by \<open>break\<close> on \<open>io.EOF\<close>, after which \<open>read\<close> returns (\<open>Returned\<close>), or by
  \<open>log.Fatal(err)\<close>, which ends the whole process (\<open>Fatal\<close>); \<open>Running h\<close> says that
  after \<open>k\<close> iterations the loop is still going, in state \<open>h\<close>.
\<close>

datatype outcome = Returned handler | Fatal error handler | Running handler

fun read_loop :: "nat \<Rightarrow> handler \<Rightarrow> outcome" where
  "read_loop 0 h = Running h"
| "read_loop (Suc k) h =
     (case io_CopyN (buf h) (conn h) (size' h) of
        ((reqLen, Some err), buf', conn') \<Rightarrow>
          (if err = EOF then Returned (h\<lparr>buf := buf', conn := conn'\<rparr>)
           else Fatal err (h\<lparr>buf := buf', conn := conn'\<rparr>))
      | ((reqLen, None), buf', conn') \<Rightarrow>
          read_loop k (h\<lparr>buf := buf', conn := conn',
            stdout := stdout h @ [Println_bytes buf', Printf_received reqLen]\<rparr>))"

text \<open>
  \<open>read\<close> itself: a fresh buffer, \<open>var size int64\<close> (zero), \<open>binary.Read\<close> into it with
  the returned error dropped (\<open>read_init\<close> is the state this leaves), then the loop, for
  at most \<open>k\<close> iterations.
\<close>

definition read_init :: "conn \<Rightarrow> handler" where
  "read_init c =
     (case binary_Read c 0 of
        (err, sz, c') \<Rightarrow> \<lparr>buf = [], size' = sz, conn = c', stdout = []\<rparr>)"

definition FileServer_read :: "nat \<Rightarrow> conn \<Rightarrow> outcome" where
  "FileServer_read k c = read_loop k (read_init c)"

subsection \<open>The sending side of a connection\<close>







subsection \<open>send\<close>





subsection \<open>FileServer.start\<close>

text \<open>
  \<open>start\<close> listens, returns the error if that fails, and otherwise accepts forever:
  an accept error is printed (\<open>fmt.Println\<close> puts a space between its operands) and
  the loop goes on; an accepted connection is given to a
  new goroutine running \<open>read\<close>. The environment gives the result of \<open>net.Listen\<close> and the
  results of the successive \<open>Accept\<close> calls. \<open>Accept\<close> blocks until there is a result, so
  for a finite list of results the loop ends up waiting in \<open>Accept\<close>: \<open>Accepting s\<close>, with
  \<open>s\<close> what the server has printed and the connections it has started handlers for.
\<close>

record server =
  printed :: "string list"
  handlers :: "conn list"

fun error_text :: "error \<Rightarrow> string" where
  "error_text EOF = ''EOF''"
| "error_text ErrUnexpectedEOF = ''unexpected EOF''"
| "error_text ErrShortWrite = ''short write''"
| "error_text (OpError s) = s"
| "error_text (RandError s) = s"

fun accept_loop :: "(error + conn) list \<Rightarrow> server \<Rightarrow> server" where
  "accept_loop [] s = s"
| "accept_loop (Inl err # accepts) s =
     accept_loop accepts (s\<lparr>printed := printed s @ [''Error accepting: '' @ '' '' @ error_text err]\<rparr>)"
| "accept_loop (Inr c # accepts) s =
     accept_loop accepts (s\<lparr>handlers := handlers s @ [c]\<rparr>)"

datatype start_result = Start_returned error | Accepting server

definition FileServer_start :: "(error + unit) \<Rightarrow> (error + conn) list \<Rightarrow> start_result" where
  "FileServer_start listen accepts =
     (case listen of
        Inl err \<Rightarrow> Start_returned err
      | Inr listener \<Rightarrow> Accepting (accept_loop accepts \<lparr>printed = [], handlers = []\<rparr>))"

subsection \<open>Vocabulary for stating properties\<close>

text \<open>
  \<open>incoming c\<close> is the byte stream a connection delivers: the segments in order, up to
  the point where the connection breaks or the peer closes. \<open>ending c\<close> is how the
  stream ends: \<open>EOF\<close> when the peer closes, the error when the connection breaks.
\<close>

fun incoming :: "conn \<Rightarrow> byte list" where
  "incoming [] = []"
| "incoming (Data bs # c) = bs @ incoming c"
| "incoming (Fail e # c) = []"

fun ending :: "conn \<Rightarrow> error" where
  "ending [] = EOF"
| "ending (Data bs # c) = ending c"
| "ending (Fail e # c) = e"

text \<open>
  \<open>reported out\<close> adds up the byte counts of the \<open>"Received %d bytes"\<close> lines printed;
  \<open>state_of\<close> is the handler's state in an outcome.
\<close>

fun reported :: "printed list \<Rightarrow> int" where
  "reported [] = 0"
| "reported (Println_bytes b # out) = reported out"
| "reported (Printf_received n # out) = n + reported out"

fun state_of :: "outcome \<Rightarrow> handler" where
  "state_of (Returned h) = h"
| "state_of (Fatal e h) = h"
| "state_of (Running h) = h"



section \<open>Properties\<close>

subsection \<open>The length prefix\<close>

lemma int_or_add: "0 \<le> a \<Longrightarrow> a < 2 ^ n \<Longrightarrow> a OR push_bit n (l::int) = a + push_bit n l"
  using concat_bit_eq [of n a l] by (simp add: concat_bit_def take_bit_int_eq_self)

lemma uint_byte_ucast: "uint (ucast (b::byte) :: 64 word) = uint b"
  by (simp add: uint_up_ucast is_up)

lemma uint_or_push:
  assumes "uint (w :: 64 word) < 2 ^ k" and "k \<le> 56"
  shows "uint (ucast (b::byte) OR push_bit 8 w) = uint b + 256 * uint w"
    and "uint (ucast (b::byte) OR push_bit 8 w) < 2 ^ (k + 8)"
proof -
  have "(2::int) ^ k \<le> 2 ^ 56"
    using assms(2) by (intro power_increasing) simp_all
  with assms(1) have "uint w < 2 ^ 56" by linarith
  then have tb: "take_bit 56 (uint w) = uint w"
    by (simp add: take_bit_int_eq_self)
  have "uint (push_bit 8 w) = take_bit 64 (push_bit 8 (uint w))"
    by (simp add: unsigned_push_bit_eq)
  also have "\<dots> = push_bit 8 (take_bit 56 (uint w))"
    by (simp add: take_bit_push_bit)
  finally have pw: "uint (push_bit 8 w) = push_bit 8 (uint w)"
    using tb by simp
  have b8: "uint b < 2 ^ 8" using uint_lt2p [of b] by simp
  have "uint (ucast b OR push_bit 8 w) = uint b OR push_bit 8 (uint w)"
    by (simp add: uint_or uint_byte_ucast pw)
  also have "\<dots> = uint b + push_bit 8 (uint w)"
    using b8 by (intro int_or_add) simp_all
  finally show eq: "uint (ucast b OR push_bit 8 w) = uint b + 256 * uint w"
    by (simp add: push_bit_eq_mult)
  have "uint w + 1 \<le> 2 ^ k" using assms(1) by simp
  then have "256 * (uint w + 1) \<le> 256 * 2 ^ k" by simp
  with b8 have "uint b + 256 * uint w < 256 * 2 ^ k" by simp
  then show "uint (ucast b OR push_bit 8 w) < 2 ^ (k + 8)"
    using eq by (simp add: power_add)
qed

lemma Uint64_nested:
  "LittleEndian_Uint64 [b0, b1, b2, b3, b4, b5, b6, b7] =
     ucast b0 OR push_bit 8 (ucast b1 OR push_bit 8 (ucast b2 OR push_bit 8 (ucast b3 OR
       push_bit 8 (ucast b4 OR push_bit 8 (ucast b5 OR push_bit 8 (ucast b6 OR push_bit 8 (ucast b7)))))))"
  by (simp add: LittleEndian_Uint64_def or.assoc)

lemma uint_Uint64:
  "uint (LittleEndian_Uint64 [b0, b1, b2, b3, b4, b5, b6, b7]) = le_value [b0, b1, b2, b3, b4, b5, b6, b7]"
proof -
  define w7 :: "64 word" where "w7 = ucast b7"
  define w6 where "w6 = ucast b6 OR push_bit 8 w7"
  define w5 where "w5 = ucast b5 OR push_bit 8 w6"
  define w4 where "w4 = ucast b4 OR push_bit 8 w5"
  define w3 where "w3 = ucast b3 OR push_bit 8 w4"
  define w2 where "w2 = ucast b2 OR push_bit 8 w3"
  define w1 where "w1 = ucast b1 OR push_bit 8 w2"
  define w0 where "w0 = ucast b0 OR push_bit 8 w1"
  have u7: "uint w7 = uint b7" "uint w7 < 2 ^ 8"
    using uint_lt2p [of b7] by (simp_all add: w7_def uint_byte_ucast)
  have u6: "uint w6 = uint b6 + 256 * uint w7" "uint w6 < 2 ^ 16"
    using uint_or_push [OF u7(2), of b6] by (simp_all add: w6_def)
  have u5: "uint w5 = uint b5 + 256 * uint w6" "uint w5 < 2 ^ 24"
    using uint_or_push [OF u6(2), of b5] by (simp_all add: w5_def)
  have u4: "uint w4 = uint b4 + 256 * uint w5" "uint w4 < 2 ^ 32"
    using uint_or_push [OF u5(2), of b4] by (simp_all add: w4_def)
  have u3: "uint w3 = uint b3 + 256 * uint w4" "uint w3 < 2 ^ 40"
    using uint_or_push [OF u4(2), of b3] by (simp_all add: w3_def)
  have u2: "uint w2 = uint b2 + 256 * uint w3" "uint w2 < 2 ^ 48"
    using uint_or_push [OF u3(2), of b2] by (simp_all add: w2_def)
  have u1: "uint w1 = uint b1 + 256 * uint w2" "uint w1 < 2 ^ 56"
    using uint_or_push [OF u2(2), of b1] by (simp_all add: w1_def)
  have u0: "uint w0 = uint b0 + 256 * uint w1"
    using uint_or_push(1) [OF u1(2), of b0] by (simp add: w0_def)
  have "LittleEndian_Uint64 [b0, b1, b2, b3, b4, b5, b6, b7] = w0"
    unfolding Uint64_nested w0_def w1_def w2_def w3_def w4_def w5_def w6_def w7_def ..
  then show ?thesis
    by (simp add: u0 u1(1) u2(1) u3(1) u4(1) u5(1) u6(1) u7(1))
qed

lemma byte_index_cases:
  "n < 64 \<Longrightarrow> (n::nat) < 8 \<or> (8 \<le> n \<and> n < 16) \<or> (16 \<le> n \<and> n < 24) \<or> (24 \<le> n \<and> n < 32) \<or>
     (32 \<le> n \<and> n < 40) \<or> (40 \<le> n \<and> n < 48) \<or> (48 \<le> n \<and> n < 56) \<or> (56 \<le> n \<and> n < 64)"
  by linarith

lemma Uint64_PutUint64: "LittleEndian_Uint64 (LittleEndian_PutUint64 v) = v"
proof (rule bit_word_eqI)
  fix n :: nat
  assume n: "n < LENGTH(64)"
  then have "n < 64" by simp
  from byte_index_cases [OF this]
  show "bit (LittleEndian_Uint64 (LittleEndian_PutUint64 v)) n = bit v n"
    unfolding LittleEndian_Uint64_def LittleEndian_PutUint64_def
    by (elim disjE conjE) (simp_all add: bit_simps cong: conj_cong, linarith+)
qed

lemma length_PutUint64: "length (LittleEndian_PutUint64 v) = 8"
  by (simp add: LittleEndian_PutUint64_def)

lemma list8: "length xs = 8 \<Longrightarrow> \<exists>b0 b1 b2 b3 b4 b5 b6 b7. xs = [b0, b1, b2, b3, b4, b5, b6, b7]"
  by (auto simp: eval_nat_numeral length_Suc_conv)

lemma sint_from_uint:
  "sint (w :: 64 word) = (if uint w < 2 ^ 63 then uint w else uint w - 2 ^ 64)"
proof -
  have lo: "0 \<le> uint w" by simp
  have hi: "uint w < 2 ^ 64" using uint_lt2p [of w] by simp
  have s: "sint w = take_bit 64 (uint w + 2 ^ 63) - 2 ^ 63"
    by (simp add: sint_uint signed_take_bit_eq_take_bit_shift)
  show ?thesis
  proof (cases "uint w < 2 ^ 63")
    case True
    with lo have "take_bit 64 (uint w + 2 ^ 63) = uint w + 2 ^ 63"
      by (intro take_bit_int_eq_self) simp_all
    with True s show ?thesis by simp
  next
    case False
    have "take_bit 64 (uint w + 2 ^ 63) = take_bit 64 (uint w + 2 ^ 63 - 2 ^ 64)"
      unfolding take_bit_eq_mod by (rule minus_mod_self2 [symmetric])
    also from False hi have "\<dots> = uint w + 2 ^ 63 - 2 ^ 64"
      by (intro take_bit_int_eq_self) simp_all
    finally show ?thesis using False s by simp
  qed
qed

subsection \<open>Reading the prefix off a connection\<close>

declare ReadAtLeast_loop.simps [simp del]

lemma ReadAtLeast_loop_done: "m \<le> length got \<Longrightarrow> ReadAtLeast_loop m got c = (got, None, c)"
  by (subst ReadAtLeast_loop.simps) simp

lemma ReadAtLeast_loop_Nil: "length got < m \<Longrightarrow> ReadAtLeast_loop m got [] = (got, Some EOF, [])"
  by (subst ReadAtLeast_loop.simps) simp

lemma ReadAtLeast_loop_Fail: "length got < m \<Longrightarrow> ReadAtLeast_loop m got (Fail e # c) = (got, Some e, c)"
  by (subst ReadAtLeast_loop.simps) simp

lemma ReadAtLeast_loop_Data:
  "length got < m \<Longrightarrow> length ds \<le> m - length got \<Longrightarrow>
     ReadAtLeast_loop m got (Data ds # c) = ReadAtLeast_loop m (got @ ds) c"
  by (subst ReadAtLeast_loop.simps) simp

lemma ReadAtLeast_loop_Data_split:
  "length got < m \<Longrightarrow> m - length got < length ds \<Longrightarrow>
     ReadAtLeast_loop m got (Data ds # c) =
       (got @ take (m - length got) ds, None, Data (drop (m - length got) ds) # c)"
  by (subst ReadAtLeast_loop.simps) (simp add: ReadAtLeast_loop_done)

lemma ReadAtLeast_loop_enough:
  "length got \<le> m \<Longrightarrow> m \<le> length got + length (incoming c) \<Longrightarrow>
     \<exists>c'. ReadAtLeast_loop m got c = (got @ take (m - length got) (incoming c), None, c')
        \<and> incoming c' = drop (m - length got) (incoming c) \<and> ending c' = ending c"
proof (induction c arbitrary: got)
  case Nil
  then show ?case by (simp add: ReadAtLeast_loop_done)
next
  case (Cons ev c)
  show ?case
  proof (cases "length got = m")
    case True
    then show ?thesis by (simp add: ReadAtLeast_loop_done)
  next
    case False
    with Cons.prems have lt: "length got < m" by simp
    show ?thesis
    proof (cases ev)
      case (Fail e)
      with Cons.prems lt show ?thesis by simp
    next
      case (Data ds)
      show ?thesis
      proof (cases "length ds \<le> m - length got")
        case True
        with lt Data have step: "ReadAtLeast_loop m got (ev # c) = ReadAtLeast_loop m (got @ ds) c"
          by (simp add: ReadAtLeast_loop_Data)
        from True lt Cons.prems Data
        have "length (got @ ds) \<le> m" "m \<le> length (got @ ds) + length (incoming c)" by simp_all
        from Cons.IH [OF this] obtain c' where
          "ReadAtLeast_loop m (got @ ds) c = ((got @ ds) @ take (m - length (got @ ds)) (incoming c), None, c')"
          "incoming c' = drop (m - length (got @ ds)) (incoming c)" "ending c' = ending c"
          by blast
        with step True Data show ?thesis by (simp add: ac_simps)
      next
        case False
        with lt Data
        have "ReadAtLeast_loop m got (ev # c) =
                (got @ take (m - length got) ds, None, Data (drop (m - length got) ds) # c)"
          by (simp add: ReadAtLeast_loop_Data_split)
        then show ?thesis using False Data by simp
      qed
    qed
  qed
qed

lemma ReadAtLeast_loop_short:
  "length got + length (incoming c) < m \<Longrightarrow>
     \<exists>c'. ReadAtLeast_loop m got c = (got @ incoming c, Some (ending c), c')"
proof (induction c arbitrary: got)
  case Nil
  then show ?case by (simp add: ReadAtLeast_loop_Nil)
next
  case (Cons ev c)
  show ?case
  proof (cases ev)
    case (Fail e)
    with Cons.prems show ?thesis by (simp add: ReadAtLeast_loop_Fail)
  next
    case (Data ds)
    with Cons.prems have "ReadAtLeast_loop m got (ev # c) = ReadAtLeast_loop m (got @ ds) c"
      by (simp add: ReadAtLeast_loop_Data)
    moreover from Cons.prems Data have "length (got @ ds) + length (incoming c) < m" by simp
    from Cons.IH [OF this] obtain c' where
      "ReadAtLeast_loop m (got @ ds) c = ((got @ ds) @ incoming c, Some (ending c), c')" by blast
    ultimately show ?thesis using Data by simp
  qed
qed

lemma io_ReadFull_enough:
  assumes "m \<le> length (incoming c)"
  shows "\<exists>c'. io_ReadFull c m = (take m (incoming c), None, c')
           \<and> incoming c' = drop m (incoming c) \<and> ending c' = ending c"
proof -
  from ReadAtLeast_loop_enough [of "[]" m c] assms obtain c' where
    "ReadAtLeast_loop m [] c = (take m (incoming c), None, c')"
    "incoming c' = drop m (incoming c)" "ending c' = ending c"
    by auto
  with assms show ?thesis by (simp add: io_ReadFull_def)
qed

lemma io_ReadFull_short:
  assumes "length (incoming c) < m"
  shows "\<exists>e c'. io_ReadFull c m = (incoming c, Some e, c')"
proof -
  from ReadAtLeast_loop_short [of "[]" c m] assms obtain c' where
    "ReadAtLeast_loop m [] c = (incoming c, Some (ending c), c')"
    by auto
  with assms show ?thesis by (simp add: io_ReadFull_def)
qed

lemma binary_Read_enough:
  assumes "8 \<le> length (incoming c)"
  shows "\<exists>c'. binary_Read c old = (None, LittleEndian_Uint64 (take 8 (incoming c)), c')
           \<and> incoming c' = drop 8 (incoming c) \<and> ending c' = ending c"
proof -
  from io_ReadFull_enough [OF assms] obtain c' where
    "io_ReadFull c 8 = (take 8 (incoming c), None, c')"
    "incoming c' = drop 8 (incoming c)" "ending c' = ending c"
    by blast
  then show ?thesis by (simp add: binary_Read_def)
qed

lemma binary_Read_short:
  assumes "length (incoming c) < 8"
  shows "\<exists>e c'. binary_Read c old = (Some e, old, c')"
proof -
  from io_ReadFull_short [OF assms] obtain e c' where "io_ReadFull c 8 = (incoming c, Some e, c')"
    by blast
  then show ?thesis by (simp add: binary_Read_def)
qed

subsection \<open>Copying from a connection into the buffer\<close>

declare Buffer_ReadFrom.simps [simp del]

lemma Buffer_ReadFrom_limit:
  "k \<le> 0 \<Longrightarrow> Buffer_ReadFrom b \<lparr>R = c, N = k\<rparr> n = (b, \<lparr>R = c, N = k\<rparr>, n, None)"
  by (subst Buffer_ReadFrom.simps) (simp add: LimitedReader_Read_def)

lemma Buffer_ReadFrom_Nil:
  "0 < k \<Longrightarrow> Buffer_ReadFrom b \<lparr>R = [], N = k\<rparr> n = (b, \<lparr>R = [], N = k\<rparr>, n, None)"
  by (subst Buffer_ReadFrom.simps) (simp add: LimitedReader_Read_def)

lemma Buffer_ReadFrom_Fail:
  "0 < k \<Longrightarrow> Buffer_ReadFrom b \<lparr>R = Fail e # c, N = k\<rparr> n =
     (b, \<lparr>R = c, N = k\<rparr>, n, if e = EOF then None else Some e)"
  by (subst Buffer_ReadFrom.simps) (simp add: LimitedReader_Read_def)

lemma Buffer_ReadFrom_Data:
  assumes "0 < k" and "int (length ds) \<le> k"
  shows "Buffer_ReadFrom b \<lparr>R = Data ds # c, N = k\<rparr> n =
       Buffer_ReadFrom (b @ ds) \<lparr>R = c, N = k - int (length ds)\<rparr> (n + int (length ds))"
proof -
  from assms have "length ds \<le> nat k" by linarith
  with assms show ?thesis
    by (subst Buffer_ReadFrom.simps) (simp add: LimitedReader_Read_def)
qed

lemma Buffer_ReadFrom_Data_split:
  assumes "0 < k" and "k < int (length ds)"
  shows "Buffer_ReadFrom b \<lparr>R = Data ds # c, N = k\<rparr> n =
       (b @ take (nat k) ds, \<lparr>R = Data (drop (nat k) ds) # c, N = 0\<rparr>, n + k, None)"
proof -
  from assms have len: "\<not> length ds \<le> nat k" "min (length ds) (nat k) = nat k" by linarith+
  with assms have "Buffer_ReadFrom b \<lparr>R = Data ds # c, N = k\<rparr> n =
       Buffer_ReadFrom (b @ take (nat k) ds) \<lparr>R = Data (drop (nat k) ds) # c, N = 0\<rparr> (n + k)"
    by (subst Buffer_ReadFrom.simps) (simp add: LimitedReader_Read_def)
  then show ?thesis by (simp add: Buffer_ReadFrom_limit)
qed

lemma Buffer_ReadFrom_enough:
  "0 \<le> k \<Longrightarrow> k \<le> int (length (incoming c)) \<Longrightarrow>
     \<exists>c'. Buffer_ReadFrom b \<lparr>R = c, N = k\<rparr> n = (b @ take (nat k) (incoming c), \<lparr>R = c', N = 0\<rparr>, n + k, None)
        \<and> incoming c' = drop (nat k) (incoming c) \<and> ending c' = ending c"
proof (induction c arbitrary: b k n)
  case Nil
  then show ?case by (simp add: Buffer_ReadFrom_limit)
next
  case (Cons ev c)
  show ?case
  proof (cases "k = 0")
    case True
    then show ?thesis by (simp add: Buffer_ReadFrom_limit)
  next
    case False
    with Cons.prems have pos: "0 < k" by simp
    show ?thesis
    proof (cases ev)
      case (Fail e)
      with Cons.prems pos show ?thesis by simp
    next
      case (Data ds)
      show ?thesis
      proof (cases "int (length ds) \<le> k")
        case True
        with pos Data have step: "Buffer_ReadFrom b \<lparr>R = ev # c, N = k\<rparr> n =
            Buffer_ReadFrom (b @ ds) \<lparr>R = c, N = k - int (length ds)\<rparr> (n + int (length ds))"
          by (simp add: Buffer_ReadFrom_Data)
        from True Cons.prems Data
        have "0 \<le> k - int (length ds)" "k - int (length ds) \<le> int (length (incoming c))" by simp_all
        from Cons.IH [OF this, of "b @ ds" "n + int (length ds)"] obtain c' where
          "Buffer_ReadFrom (b @ ds) \<lparr>R = c, N = k - int (length ds)\<rparr> (n + int (length ds)) =
             ((b @ ds) @ take (nat (k - int (length ds))) (incoming c), \<lparr>R = c', N = 0\<rparr>,
              n + int (length ds) + (k - int (length ds)), None)"
          "incoming c' = drop (nat (k - int (length ds))) (incoming c)" "ending c' = ending c"
          by blast
        moreover from True have "nat k - length ds = nat (k - int (length ds))" by simp
        ultimately show ?thesis using step True Data by simp
      next
        case False
        with pos Data show ?thesis by (simp add: Buffer_ReadFrom_Data_split)
      qed
    qed
  qed
qed

lemma Buffer_ReadFrom_short:
  "int (length (incoming c)) < k \<Longrightarrow>
     \<exists>l'. Buffer_ReadFrom b \<lparr>R = c, N = k\<rparr> n =
       (b @ incoming c, l', n + int (length (incoming c)),
        if ending c = EOF then None else Some (ending c))"
proof (induction c arbitrary: b k n)
  case Nil
  then show ?case by (simp add: Buffer_ReadFrom_Nil)
next
  case (Cons ev c)
  from Cons.prems have pos: "0 < k" by (cases ev) simp_all
  show ?case
  proof (cases ev)
    case (Fail e)
    with pos show ?thesis by (simp add: Buffer_ReadFrom_Fail)
  next
    case (Data ds)
    with Cons.prems pos have step: "Buffer_ReadFrom b \<lparr>R = ev # c, N = k\<rparr> n =
        Buffer_ReadFrom (b @ ds) \<lparr>R = c, N = k - int (length ds)\<rparr> (n + int (length ds))"
      by (simp add: Buffer_ReadFrom_Data)
    from Cons.prems Data have "int (length (incoming c)) < k - int (length ds)" by simp
    from Cons.IH [OF this, of "b @ ds" "n + int (length ds)"] obtain l' where
      "Buffer_ReadFrom (b @ ds) \<lparr>R = c, N = k - int (length ds)\<rparr> (n + int (length ds)) =
         ((b @ ds) @ incoming c, l', n + int (length ds) + int (length (incoming c)),
          if ending c = EOF then None else Some (ending c))"
      by blast
    with step Data show ?thesis by simp
  qed
qed

text \<open>
  \<open>io.CopyN\<close> in its three cases: nothing asked for, enough bytes on the connection,
  and the stream ending first.
\<close>

lemma io_CopyN_nonpositive:
  "sint n \<le> 0 \<Longrightarrow> io_CopyN dst c n = ((0, None), dst, c)"
  by (simp add: io_CopyN_def io_Copy_def Buffer_ReadFrom_limit)

lemma io_CopyN_enough:
  assumes "0 < sint n" and "sint n \<le> int (length (incoming c))"
  shows "\<exists>c'. io_CopyN dst c n = ((sint n, None), dst @ take (nat (sint n)) (incoming c), c')
           \<and> incoming c' = drop (nat (sint n)) (incoming c) \<and> ending c' = ending c"
proof -
  from assms have "0 \<le> sint n" by simp
  from Buffer_ReadFrom_enough [OF this assms(2), of dst 0] obtain c' where
    "Buffer_ReadFrom dst \<lparr>R = c, N = sint n\<rparr> 0 =
       (dst @ take (nat (sint n)) (incoming c), \<lparr>R = c', N = 0\<rparr>, 0 + sint n, None)"
    "incoming c' = drop (nat (sint n)) (incoming c)" "ending c' = ending c"
    by blast
  then show ?thesis by (simp add: io_CopyN_def io_Copy_def)
qed

lemma io_CopyN_short:
  assumes "int (length (incoming c)) < sint n"
  shows "\<exists>c'. io_CopyN dst c n =
           ((int (length (incoming c)), Some (ending c)), dst @ incoming c, c')"
proof -
  from Buffer_ReadFrom_short [OF assms, of dst 0] obtain l' where
    "Buffer_ReadFrom dst \<lparr>R = c, N = sint n\<rparr> 0 =
       (dst @ incoming c, l', 0 + int (length (incoming c)),
        if ending c = EOF then None else Some (ending c))"
    by blast
  with assms show ?thesis by (simp add: io_CopyN_def io_Copy_def)
qed

subsection \<open>The read loop, one iteration and many\<close>

lemma reported_append: "reported (xs @ ys) = reported xs + reported ys"
  by (induction xs rule: reported.induct) simp_all

lemma read_loop_spin:
  "sint (size' h) \<le> 0 \<Longrightarrow>
     read_loop k h =
       Running (h\<lparr>stdout := stdout h @ concat (replicate k [Println_bytes (buf h), Printf_received 0])\<rparr>)"
proof (induction k arbitrary: h)
  case 0
  show ?case by simp
next
  case (Suc k)
  let ?h1 = "h\<lparr>stdout := stdout h @ [Println_bytes (buf h), Printf_received 0]\<rparr>"
  from Suc.prems have "read_loop (Suc k) h = read_loop k ?h1"
    by (simp add: io_CopyN_nonpositive)
  moreover from Suc.prems have "sint (size' ?h1) \<le> 0" by simp
  ultimately show ?case by (simp add: Suc.IH)
qed

lemma read_loop_Suc_cases:
  obtains (continue) bs c' where
      "read_loop (Suc k) h =
         read_loop k (h\<lparr>buf := buf h @ bs, conn := c',
           stdout := stdout h @ [Println_bytes (buf h @ bs), Printf_received (int (length bs))]\<rparr>)"
      "incoming (conn h) = bs @ incoming c'" "ending c' = ending (conn h)"
      "sint (size' h) \<le> 0 \<and> bs = [] \<or> int (length bs) = sint (size' h)"
  | (stop) c' where
      "read_loop (Suc k) h =
         (if ending (conn h) = EOF then Returned (h\<lparr>buf := buf h @ incoming (conn h), conn := c'\<rparr>)
          else Fatal (ending (conn h)) (h\<lparr>buf := buf h @ incoming (conn h), conn := c'\<rparr>))"
      "int (length (incoming (conn h))) < sint (size' h)"
proof -
  consider "sint (size' h) \<le> 0"
    | "0 < sint (size' h)" "sint (size' h) \<le> int (length (incoming (conn h)))"
    | "int (length (incoming (conn h))) < sint (size' h)"
    by linarith
  then show thesis
  proof cases
    case 1
    then have "read_loop (Suc k) h =
         read_loop k (h\<lparr>buf := buf h @ [], conn := conn h,
           stdout := stdout h @ [Println_bytes (buf h @ []), Printf_received (int (length ([]::byte list)))]\<rparr>)"
      by (simp add: io_CopyN_nonpositive)
    with 1 show thesis by (intro continue [of "[]" "conn h"]) simp_all
  next
    case 2
    let ?n = "nat (sint (size' h))"
    from io_CopyN_enough [OF 2, of "buf h"] obtain c' where
      c': "io_CopyN (buf h) (conn h) (size' h) =
            ((sint (size' h), None), buf h @ take ?n (incoming (conn h)), c')"
        "incoming c' = drop ?n (incoming (conn h))" "ending c' = ending (conn h)"
      by blast
    from 2 have len: "int (length (take ?n (incoming (conn h)))) = sint (size' h)" by simp
    have "read_loop (Suc k) h =
         read_loop k (h\<lparr>buf := buf h @ take ?n (incoming (conn h)), conn := c',
           stdout := stdout h @ [Println_bytes (buf h @ take ?n (incoming (conn h))),
             Printf_received (int (length (take ?n (incoming (conn h)))))]\<rparr>)"
      unfolding len by (simp add: c'(1))
    then show thesis
      using c'(2,3) len by (intro continue [of "take ?n (incoming (conn h))" c']) simp_all
  next
    case 3
    from io_CopyN_short [OF 3, of "buf h"] obtain c' where
      "io_CopyN (buf h) (conn h) (size' h) =
         ((int (length (incoming (conn h))), Some (ending (conn h))), buf h @ incoming (conn h), c')"
      by blast
    then have "read_loop (Suc k) h =
         (if ending (conn h) = EOF then Returned (h\<lparr>buf := buf h @ incoming (conn h), conn := c'\<rparr>)
          else Fatal (ending (conn h)) (h\<lparr>buf := buf h @ incoming (conn h), conn := c'\<rparr>))"
      by simp
    with 3 show thesis by (intro stop [of c'])
  qed
qed

lemma read_loop_Running:
  "read_loop k h = Running h' \<Longrightarrow>
     \<exists>bs. buf h' = buf h @ bs \<and> incoming (conn h) = bs @ incoming (conn h')
        \<and> ending (conn h') = ending (conn h) \<and> size' h' = size' h
        \<and> reported (stdout h') = reported (stdout h) + int (length bs)"
proof (induction k arbitrary: h)
  case 0
  then show ?case by simp
next
  case (Suc k)
  show ?case
  proof (cases rule: read_loop_Suc_cases [of k h])
    case (continue bs c')
    let ?h1 = "h\<lparr>buf := buf h @ bs, conn := c',
           stdout := stdout h @ [Println_bytes (buf h @ bs), Printf_received (int (length bs))]\<rparr>"
    from continue(1) Suc.prems have "read_loop k ?h1 = Running h'" by simp
    from Suc.IH [OF this] obtain bs' where
      "buf h' = buf ?h1 @ bs'" "incoming (conn ?h1) = bs' @ incoming (conn h')"
      "ending (conn h') = ending (conn ?h1)" "size' h' = size' ?h1"
      "reported (stdout h') = reported (stdout ?h1) + int (length bs')"
      by blast
    with continue(2,3) have
      "buf h' = buf h @ (bs @ bs') \<and> incoming (conn h) = (bs @ bs') @ incoming (conn h')
        \<and> ending (conn h') = ending (conn h) \<and> size' h' = size' h
        \<and> reported (stdout h') = reported (stdout h) + int (length (bs @ bs'))"
      by (simp add: reported_append)
    then show ?thesis by blast
  next
    case (stop c')
    with Suc.prems show ?thesis by (simp split: if_splits)
  qed
qed

lemma read_loop_Returned:
  "read_loop k h = Returned h' \<Longrightarrow>
     buf h' = buf h @ incoming (conn h) \<and> ending (conn h) = EOF \<and> size' h' = size' h
     \<and> reported (stdout h) \<le> reported (stdout h')
     \<and> reported (stdout h') - reported (stdout h) \<le> int (length (incoming (conn h)))
     \<and> int (length (incoming (conn h))) < reported (stdout h') - reported (stdout h) + sint (size' h)"
proof (induction k arbitrary: h)
  case 0
  then show ?case by simp
next
  case (Suc k)
  show ?case
  proof (cases rule: read_loop_Suc_cases [of k h])
    case (continue bs c')
    let ?h1 = "h\<lparr>buf := buf h @ bs, conn := c',
           stdout := stdout h @ [Println_bytes (buf h @ bs), Printf_received (int (length bs))]\<rparr>"
    from continue(1) Suc.prems have "read_loop k ?h1 = Returned h'" by simp
    from Suc.IH [OF this] continue(2,3) show ?thesis
      by (simp add: reported_append)
  next
    case (stop c')
    with Suc.prems show ?thesis by (auto split: if_splits)
  qed
qed

lemma read_loop_Fatal:
  "read_loop k h = Fatal e h' \<Longrightarrow>
     buf h' = buf h @ incoming (conn h) \<and> ending (conn h) = e \<and> e \<noteq> EOF \<and> size' h' = size' h
     \<and> reported (stdout h) \<le> reported (stdout h')
     \<and> reported (stdout h') - reported (stdout h) \<le> int (length (incoming (conn h)))
     \<and> int (length (incoming (conn h))) < reported (stdout h') - reported (stdout h) + sint (size' h)"
proof (induction k arbitrary: h)
  case 0
  then show ?case by simp
next
  case (Suc k)
  show ?case
  proof (cases rule: read_loop_Suc_cases [of k h])
    case (continue bs c')
    let ?h1 = "h\<lparr>buf := buf h @ bs, conn := c',
           stdout := stdout h @ [Println_bytes (buf h @ bs), Printf_received (int (length bs))]\<rparr>"
    from continue(1) Suc.prems have "read_loop k ?h1 = Fatal e h'" by simp
    from Suc.IH [OF this] continue(2,3) show ?thesis
      by (simp add: reported_append)
  next
    case (stop c')
    with Suc.prems show ?thesis by (auto split: if_splits)
  qed
qed

text \<open>Enough iterations end the loop when the size is positive.\<close>

lemma div_add_self_Suc: "0 < (n::nat) \<Longrightarrow> (n + x) div n = Suc (x div n)"
  using div_add_self1 [of n x] by simp

lemma read_loop_exit:
  "0 < sint (size' h) \<Longrightarrow> length (incoming (conn h)) div nat (sint (size' h)) < k \<Longrightarrow>
     \<exists>h'. read_loop k h = (if ending (conn h) = EOF then Returned h' else Fatal (ending (conn h)) h')"
proof (induction k arbitrary: h)
  case 0
  then show ?case by simp
next
  case (Suc k)
  show ?case
  proof (cases rule: read_loop_Suc_cases [of k h])
    case (continue bs c')
    let ?h1 = "h\<lparr>buf := buf h @ bs, conn := c',
           stdout := stdout h @ [Println_bytes (buf h @ bs), Printf_received (int (length bs))]\<rparr>"
    let ?n = "nat (sint (size' h))"
    from continue(4) Suc.prems(1) have len: "length bs = ?n" by auto
    from Suc.prems(1) have npos: "0 < ?n" by simp
    from continue(2) len have "length (incoming (conn h)) = ?n + length (incoming c')"
      by simp
    then have "length (incoming (conn h)) div ?n = Suc (length (incoming c') div ?n)"
      by (simp only: div_add_self_Suc [OF npos])
    with Suc.prems(2) have "length (incoming (conn ?h1)) div nat (sint (size' ?h1)) < k"
      by simp
    moreover from Suc.prems(1) have "0 < sint (size' ?h1)" by simp
    ultimately obtain h' where
      "read_loop k ?h1 = (if ending (conn ?h1) = EOF then Returned h' else Fatal (ending (conn ?h1)) h')"
      using Suc.IH [of ?h1] by blast
    with continue(1,3) show ?thesis by simp
  next
    case (stop c')
    then show ?thesis by auto
  qed
qed

text \<open>Iterations compose: \<open>j + i\<close> iterations are \<open>j\<close> iterations and then \<open>i\<close> more.\<close>

lemma read_loop_add:
  "read_loop (j + i) h =
     (case read_loop j h of Running h' \<Rightarrow> read_loop i h' | Returned h' \<Rightarrow> Returned h'
      | Fatal e h' \<Rightarrow> Fatal e h')"
  by (induction j arbitrary: h) (simp_all split: prod.splits option.splits)

subsection \<open>Where the loop starts\<close>

lemma read_init_fresh: "buf (read_init c) = []" "stdout (read_init c) = []"
  by (simp_all add: read_init_def split: prod.splits)

lemma read_init_enough:
  assumes "8 \<le> length (incoming c)"
  shows "\<exists>c'. read_init c = \<lparr>buf = [], size' = LittleEndian_Uint64 (take 8 (incoming c)), conn = c', stdout = []\<rparr>
           \<and> incoming c' = drop 8 (incoming c) \<and> ending c' = ending c"
proof -
  from binary_Read_enough [OF assms, of 0] obtain c' where
    "binary_Read c 0 = (None, LittleEndian_Uint64 (take 8 (incoming c)), c')"
    "incoming c' = drop 8 (incoming c)" "ending c' = ending c" by blast
  then show ?thesis by (simp add: read_init_def)
qed

lemma read_init_short:
  assumes "length (incoming c) < 8"
  shows "\<exists>c'. read_init c = \<lparr>buf = [], size' = 0, conn = c', stdout = []\<rparr>"
proof -
  from binary_Read_short [OF assms, of 0] obtain e c' where "binary_Read c 0 = (Some e, 0, c')"
    by blast
  then show ?thesis by (simp add: read_init_def)
qed

lemma read_init_frame:
  assumes "incoming c = LittleEndian_PutUint64 sz @ p"
  shows "\<exists>c'. read_init c = \<lparr>buf = [], size' = sz, conn = c', stdout = []\<rparr>
           \<and> incoming c' = p \<and> ending c' = ending c"
proof -
  from assms have "8 \<le> length (incoming c)" by (simp add: length_PutUint64)
  from read_init_enough [OF this] show ?thesis
    by (simp add: assms length_PutUint64 Uint64_PutUint64)
qed

text \<open>A handler whose size is not positive is still in its loop after any number of iterations.\<close>

lemma FileServer_read_spin:
  assumes "read_init c = \<lparr>buf = [], size' = sz, conn = c', stdout = []\<rparr>" and "sint sz \<le> 0"
  shows "FileServer_read k c =
     Running \<lparr>buf = [], size' = sz, conn = c',
       stdout = concat (replicate k [Println_bytes [], Printf_received 0])\<rparr>"
  using assms by (simp add: FileServer_read_def read_loop_spin)



subsection \<open>The buffer only grows\<close>

lemma read_loop_buf_grows: "prefix (buf h) (buf (state_of (read_loop k h)))"
proof (cases "read_loop k h")
  case (Returned h')
  from read_loop_Returned [OF this] Returned show ?thesis by simp
next
  case (Fatal e h')
  from read_loop_Fatal [OF this] Fatal show ?thesis by simp
next
  case (Running h')
  from read_loop_Running [OF this] Running show ?thesis by auto
qed

lemma read_loop_buf_mono:
  assumes "j \<le> k"
  shows "prefix (buf (state_of (read_loop j h))) (buf (state_of (read_loop k h)))"
proof -
  from assms obtain i where k: "k = j + i" by (auto simp: le_iff_add)
  show ?thesis
  proof (cases "read_loop j h")
    case (Running h')
    with read_loop_buf_grows [of h' i] show ?thesis
      by (simp add: k read_loop_add)
  qed (simp_all add: k read_loop_add)
qed

lemma read_loop_prints_buffer:
  "read_loop (Suc k) h = Running h' \<Longrightarrow>
     \<exists>out r. stdout h' = out @ [Println_bytes (buf h'), Printf_received r]"
proof (induction k arbitrary: h)
  case 0
  then show ?case by (auto split: prod.splits option.splits if_splits)
next
  case (Suc k)
  show ?case
  proof (cases rule: read_loop_Suc_cases [of "Suc k" h])
    case (continue bs c')
    with Suc.prems Suc.IH show ?thesis by (simp del: read_loop.simps)
  next
    case (stop c')
    with Suc.prems show ?thesis by (simp del: read_loop.simps split: if_splits)
  qed
qed

lemma read_loop_one_iteration:
  "read_loop (Suc 0) h = Running h' \<Longrightarrow>
     \<exists>bs. buf h' = buf h @ bs
        \<and> stdout h' = stdout h @ [Println_bytes (buf h'), Printf_received (int (length bs))]"
proof (cases rule: read_loop_Suc_cases [of 0 h])
  case (continue bs c')
  assume "read_loop (Suc 0) h = Running h'"
  with continue(1) have "h' = h\<lparr>buf := buf h @ bs, conn := c',
           stdout := stdout h @ [Println_bytes (buf h @ bs), Printf_received (int (length bs))]\<rparr>"
    by (simp del: read_loop.simps(2))
  then show ?thesis by simp
next
  case (stop c')
  assume "read_loop (Suc 0) h = Running h'"
  with stop show ?thesis by (simp del: read_loop.simps split: if_splits)
qed

lemma read_loop_last_iteration:
  assumes "read_loop (Suc 0) h = Returned h' \<or> read_loop (Suc 0) h = Fatal e h'"
  shows "stdout h' = stdout h \<and> (\<exists>bs. buf h' = buf h @ bs \<and> int (length bs) < sint (size' h))"
proof (cases rule: read_loop_Suc_cases [of 0 h])
  case (continue bs c')
  with assms show ?thesis by (simp del: read_loop.simps(2))
next
  case (stop c')
  with assms have "h' = h\<lparr>buf := buf h @ incoming (conn h), conn := c'\<rparr>"
    by (auto simp del: read_loop.simps split: if_splits)
  with stop(2) show ?thesis by simp
qed

subsection \<open>The accept loop\<close>

lemma accept_loop_result:
  "accept_loop accepts s =
     s\<lparr>printed := printed s @ map (\<lambda>e. ''Error accepting: '' @ '' '' @ error_text e) [e. Inl e \<leftarrow> accepts],
       handlers := handlers s @ [c. Inr c \<leftarrow> accepts]\<rparr>"
  by (induction accepts s rule: accept_loop.induct) simp_all

subsection \<open>Writing to a connection\<close>
















subsection \<open>send, once the payload is there and the connection is open\<close>





section \<open>The claims\<close>

subsection \<open>C1: a frame sent is the frame received\<close>




subsection \<open>C2: a truncated prefix\<close>

text \<open>
  C2 says that the receiver fails with a decode error when the connection ends before 8
  bytes have come. The code does not: \<open>read\<close> drops the error of \<open>binary.Read\<close>, goes
  on with \<open>size = 0\<close> and an empty buffer, and is then still in its loop after any number
  \<open>k\<close> of iterations, each of which prints the empty buffer and \<open>"Received 0 bytes"\<close>
  and leaves the connection as it was. It reports no error and never returns.
\<close>

theorem truncated_prefix_proceeds_with_zero:
  assumes "length (incoming c) < 8"
  shows "FileServer_read k c =
     Running \<lparr>buf = [], size' = 0, conn = conn (read_init c),
       stdout = concat (replicate k [Println_bytes [], Printf_received 0])\<rparr>"
proof -
  from read_init_short [OF assms] obtain c' where
    init: "read_init c = \<lparr>buf = [], size' = 0, conn = c', stdout = []\<rparr>" by blast
  from FileServer_read_spin [OF init, of k] init show ?thesis by simp
qed

theorem truncated_prefix_proceeds_with_zero_witness:
  "length (incoming [Data [5, 0, 0]]) < 8
   \<and> FileServer_read 2 [Data [5, 0, 0]] =
     Running \<lparr>buf = [], size' = 0, conn = [],
       stdout = [Println_bytes [], Printf_received 0, Println_bytes [], Printf_received 0]\<rparr>"
proof -
  have h: "length (incoming [Data [5, 0, 0]]) < 8" by simp
  have c: "conn (read_init [Data [5, 0, 0]]) = []" by code_simp
  from truncated_prefix_proceeds_with_zero [OF h, of 2]
  have "FileServer_read 2 [Data [5, 0, 0]] =
     Running \<lparr>buf = [], size' = 0, conn = [],
       stdout = concat (replicate 2 [Println_bytes [], Printf_received 0])\<rparr>"
    by (simp only: c)
  with h show ?thesis by (simp add: numeral_2_eq_2)
qed

subsection \<open>C3: a frame of declared length 0\<close>

text \<open>
  C3 says that on a frame of declared length 0 the loop ends at once. The code decodes
  \<open>size = 0\<close> and reads no payload byte, as C3 says, but its loop does not end:
  \<open>io.CopyN(buf, conn, 0)\<close> returns \<open>(0, nil)\<close> without touching the connection, so
  after any number \<open>k\<close> of iterations the loop is still running, with an empty buffer,
  \<open>k\<close> times \<open>"Received 0 bytes"\<close> printed and the connection as it was.
\<close>

theorem zero_length_frame_never_ends:
  assumes "incoming c = LittleEndian_PutUint64 0"
  shows "FileServer_read k c =
     Running \<lparr>buf = [], size' = 0, conn = conn (read_init c),
       stdout = concat (replicate k [Println_bytes [], Printf_received 0])\<rparr>
     \<and> incoming (conn (read_init c)) = []"
proof -
  from assms have "incoming c = LittleEndian_PutUint64 0 @ []" by simp
  from read_init_frame [OF this] obtain c' where
    init: "read_init c = \<lparr>buf = [], size' = 0, conn = c', stdout = []\<rparr>"
    and rest: "incoming c' = []" by blast
  from FileServer_read_spin [OF init, of k] init rest show ?thesis by simp
qed

theorem zero_length_frame_never_ends_witness:
  "incoming [Data [0, 0, 0, 0], Data [0, 0, 0, 0]] = LittleEndian_PutUint64 0
   \<and> FileServer_read 3 [Data [0, 0, 0, 0], Data [0, 0, 0, 0]] =
     Running \<lparr>buf = [], size' = 0, conn = [],
       stdout = [Println_bytes [], Printf_received 0, Println_bytes [], Printf_received 0,
                 Println_bytes [], Printf_received 0]\<rparr>"
proof -
  have h: "incoming [Data [0, 0, 0, 0], Data [0, 0, 0, 0]] = LittleEndian_PutUint64 0"
    by (simp add: LittleEndian_PutUint64_def)
  have c: "conn (read_init [Data [0, 0, 0, 0], Data [0, 0, 0, 0]]) = []" by code_simp
  from zero_length_frame_never_ends [OF h, of 3]
  have "FileServer_read 3 [Data [0, 0, 0, 0], Data [0, 0, 0, 0]] =
     Running \<lparr>buf = [], size' = 0, conn = [],
       stdout = concat (replicate 3 [Println_bytes [], Printf_received 0])\<rparr>"
    by (simp only: c)
  with h show ?thesis by (simp add: numeral_3_eq_3)
qed

subsection \<open>C4: the decoded size\<close>

text \<open>
  C4 (as amended). The receiver takes the first 8 bytes of the stream off the connection
  and stores them in the signed 64-bit variable \<open>size\<close>. The bit pattern of \<open>size\<close> is the
  little-endian combination of those bytes, so read as unsigned it is their
  little-endian value \<open>v\<close>; the value the program works with is the signed one, which is
  \<open>v\<close> when \<open>v < 2^63\<close> and \<open>v - 2^64\<close>, a negative number, when the most significant bit
  is set.
\<close>

theorem decoded_size_signed:
  assumes "8 \<le> length (incoming c)"
  shows "uint (size' (read_init c)) = le_value (take 8 (incoming c))
    \<and> sint (size' (read_init c)) =
        (if le_value (take 8 (incoming c)) < 2 ^ 63 then le_value (take 8 (incoming c))
         else le_value (take 8 (incoming c)) - 2 ^ 64)
    \<and> incoming (conn (read_init c)) = drop 8 (incoming c)"
proof -
  from binary_Read_enough [OF assms, of 0] obtain c' where
    "binary_Read c 0 = (None, LittleEndian_Uint64 (take 8 (incoming c)), c')"
    "incoming c' = drop 8 (incoming c)" by blast
  then have sz: "size' (read_init c) = LittleEndian_Uint64 (take 8 (incoming c))"
    and rest: "incoming (conn (read_init c)) = drop 8 (incoming c)"
    by (simp_all add: read_init_def)
  from assms have "length (take 8 (incoming c)) = 8" by simp
  from list8 [OF this] obtain b0 b1 b2 b3 b4 b5 b6 b7 where
    bs: "take 8 (incoming c) = [b0, b1, b2, b3, b4, b5, b6, b7]" by blast
  have u: "uint (size' (read_init c)) = le_value (take 8 (incoming c))"
    unfolding sz bs by (rule uint_Uint64)
  show ?thesis
    using u rest sint_from_uint [of "size' (read_init c)"] by simp
qed

theorem decoded_size_signed_witness:
  "8 \<le> length (incoming [Data [1, 2], Data [3, 4, 5, 6, 7, 255, 9]])
   \<and> uint (size' (read_init [Data [1, 2], Data [3, 4, 5, 6, 7, 255, 9]])) = le_value [1, 2, 3, 4, 5, 6, 7, 255]
   \<and> sint (size' (read_init [Data [1, 2], Data [3, 4, 5, 6, 7, 255, 9]])) = le_value [1, 2, 3, 4, 5, 6, 7, 255] - 2 ^ 64
   \<and> incoming (conn (read_init [Data [1, 2], Data [3, 4, 5, 6, 7, 255, 9]])) = [9]"
proof -
  have h: "8 \<le> length (incoming [Data [1, 2], Data [3, 4, 5, 6, 7, 255, 9]])" by simp
  show ?thesis
    using h decoded_size_signed [OF h] by simp
qed

text \<open>
  C4 as stated fails on a prefix whose most significant bit is set: the bytes
  \<open>00 00 00 00 00 00 00 80\<close> have the unsigned value \<open>2^63\<close>, and the receiver's \<open>size\<close>
  is \<open>-2^63\<close>.
\<close>

theorem decoded_size_unsigned_counterexample:
  "sint (size' (read_init [Data [0, 0, 0, 0, 0, 0, 0, 128]])) \<noteq> le_value [0, 0, 0, 0, 0, 0, 0, 128]"
  by code_simp

subsection \<open>C5: fewer payload bytes than declared\<close>



subsection \<open>C6: what send writes and reports\<close>



subsection \<open>C7: accept errors and listen errors\<close>

text \<open>
  C7. When \<open>net.Listen\<close> fails, \<open>start\<close> returns that error, whatever connections might
  have come. When it succeeds, \<open>start\<close> never returns because of an accept error: after
  any finite sequence of accept results it is accepting still, having printed one
  \<open>"Error accepting: ..."\<close> line for each failed accept, in order, and started a handler
  for each accepted connection, in order; in particular a connection accepted right
  after a failed accept gets its handler and the loop goes on with what follows.
\<close>

theorem accept_errors_do_not_end_the_listener:
  "FileServer_start (Inl err) accepts = Start_returned err
   \<and> FileServer_start (Inr listener) accepts =
       Accepting \<lparr>printed = map (\<lambda>e. ''Error accepting: '' @ '' '' @ error_text e) [e. Inl e \<leftarrow> accepts],
                  handlers = [c. Inr c \<leftarrow> accepts]\<rparr>
   \<and> FileServer_start (Inr listener) (before @ Inl e # Inr c # later) =
       Accepting (accept_loop later
         \<lparr>printed = map (\<lambda>e. ''Error accepting: '' @ '' '' @ error_text e) [e. Inl e \<leftarrow> before]
                      @ [''Error accepting: '' @ '' '' @ error_text e],
          handlers = [c. Inr c \<leftarrow> before] @ [c]\<rparr>)"
  by (simp add: FileServer_start_def accept_loop_result)

theorem accept_errors_do_not_end_the_listener_witness:
  "FileServer_start (Inl (OpError ''address already in use'')) [Inr [Data [1]]] =
     Start_returned (OpError ''address already in use'')
   \<and> FileServer_start (Inr ())
        [Inr [Data [1]], Inl (OpError ''too many open files''), Inr [Data [2]], Inr []] =
       Accepting \<lparr>printed = [''Error accepting:  too many open files''],
                  handlers = [[Data [1]], [Data [2]], []]\<rparr>"
  using accept_errors_do_not_end_the_listener
    [of "OpError ''address already in use''" "[Inr [Data [1]]]" "()" "[]" EOF "[]" "[]"]
    accept_errors_do_not_end_the_listener
    [of EOF "[Inr [Data [1]], Inl (OpError ''too many open files''), Inr [Data [2]], Inr []]"
       "()" "[]" EOF "[]" "[]"]
  by simp

subsection \<open>C8: end of stream and other read errors in the payload loop\<close>

text \<open>
  C8. Take the loop in any state with a positive \<open>size\<close>, and give it more iterations
  than there are full \<open>size\<close>-byte pieces on the connection. If the stream ends with
  \<open>io.EOF\<close> the loop is left by \<open>break\<close> and \<open>read\<close> returns normally; if it ends with
  any other error \<open>e\<close>, the outcome is \<open>log.Fatal(e)\<close>, the end of the whole process.
  Either way the buffer then holds all the bytes that came before the end.
\<close>

theorem payload_read_error_handling:
  assumes "0 < sint (size' h)"
    and "length (incoming (conn h)) div nat (sint (size' h)) < k"
  shows "\<exists>h'. read_loop k h =
            (if ending (conn h) = EOF then Returned h' else Fatal (ending (conn h)) h')
          \<and> buf h' = buf h @ incoming (conn h)"
proof -
  from read_loop_exit [OF assms] obtain h' where
    r: "read_loop k h = (if ending (conn h) = EOF then Returned h' else Fatal (ending (conn h)) h')"
    by blast
  show ?thesis
  proof (cases "ending (conn h) = EOF")
    case True
    with r have "read_loop k h = Returned h'" by simp
    from read_loop_Returned [OF this] r show ?thesis by blast
  next
    case False
    with r have "read_loop k h = Fatal (ending (conn h)) h'" by simp
    from read_loop_Fatal [OF this] r show ?thesis by blast
  qed
qed

theorem payload_read_error_handling_witness:
  "0 < sint (size' \<lparr>buf = [], size' = 2, conn = [Data [1, 2, 3]], stdout = []\<rparr>)
   \<and> length (incoming [Data [1, 2, 3 :: byte]]) div nat (sint (2 :: int64)) < 2
   \<and> read_loop 2 \<lparr>buf = [], size' = 2, conn = [Data [1, 2, 3]], stdout = []\<rparr> =
        Returned \<lparr>buf = [1, 2, 3], size' = 2, conn = [], stdout = [Println_bytes [1, 2], Printf_received 2]\<rparr>
   \<and> read_loop 2 \<lparr>buf = [], size' = 2, conn = [Data [1, 2, 3], Fail (OpError ''connection reset by peer'')], stdout = []\<rparr> =
        Fatal (OpError ''connection reset by peer'')
          \<lparr>buf = [1, 2, 3], size' = 2, conn = [], stdout = [Println_bytes [1, 2], Printf_received 2]\<rparr>"
proof -
  let ?h = "\<lparr>buf = [], size' = 2 :: int64, conn = [Data [1, 2, 3]], stdout = []\<rparr>"
  let ?g = "\<lparr>buf = [], size' = 2 :: int64,
    conn = [Data [1, 2, 3], Fail (OpError ''connection reset by peer'')], stdout = []\<rparr>"
  have h1: "0 < sint (size' ?h)" by simp
  have h2: "length (incoming (conn ?h)) div nat (sint (size' ?h)) < 2" by simp
  have g1: "0 < sint (size' ?g)" by simp
  have g2: "length (incoming (conn ?g)) div nat (sint (size' ?g)) < 2" by simp
  from payload_read_error_handling [OF h1 h2] obtain h' where
    "read_loop 2 ?h = Returned h'" by auto
  moreover have "state_of (read_loop 2 ?h) =
      \<lparr>buf = [1, 2, 3], size' = 2, conn = [], stdout = [Println_bytes [1, 2], Printf_received 2]\<rparr>"
    by code_simp
  ultimately have a: "read_loop 2 ?h =
      Returned \<lparr>buf = [1, 2, 3], size' = 2, conn = [], stdout = [Println_bytes [1, 2], Printf_received 2]\<rparr>"
    by simp
  from payload_read_error_handling [OF g1 g2] obtain g' where
    "read_loop 2 ?g = Fatal (OpError ''connection reset by peer'') g'" by auto
  moreover have "state_of (read_loop 2 ?g) =
      \<lparr>buf = [1, 2, 3], size' = 2, conn = [], stdout = [Println_bytes [1, 2], Printf_received 2]\<rparr>"
    by code_simp
  ultimately have b: "read_loop 2 ?g = Fatal (OpError ''connection reset by peer'')
      \<lparr>buf = [1, 2, 3], size' = 2, conn = [], stdout = [Println_bytes [1, 2], Printf_received 2]\<rparr>"
    by simp
  from a b h1 h2 show ?thesis by simp
qed

subsection \<open>C9: the counts reported and the bytes received\<close>

text \<open>
  C9 (as amended). An iteration that does not end the loop appends the bytes it obtained
  to the buffer, prints the buffer and reports exactly the number of bytes it obtained.
  As long as the loop is running, the sum of the counts reported so far equals the number
  of bytes in the buffer. The iteration that ends the loop appends the bytes it obtained,
  fewer than \<open>size\<close>, and reports nothing: when the loop has ended, the number of bytes
  in the buffer is at least the reported sum and less than the reported sum plus \<open>size\<close>.
\<close>

theorem reported_counts_and_buffer:
  "(read_loop (Suc 0) h0 = Running h1 \<longrightarrow>
      (\<exists>bs. buf h1 = buf h0 @ bs
         \<and> stdout h1 = stdout h0 @ [Println_bytes (buf h1), Printf_received (int (length bs))]))
   \<and> (read_loop (Suc 0) h0 = Returned h1 \<or> read_loop (Suc 0) h0 = Fatal e h1 \<longrightarrow>
        stdout h1 = stdout h0
        \<and> (\<exists>bs. buf h1 = buf h0 @ bs \<and> int (length bs) < sint (size' h0)))
   \<and> (FileServer_read k c = Running h \<longrightarrow> reported (stdout h) = int (length (buf h)))
   \<and> (FileServer_read k c = Returned h \<or> FileServer_read k c = Fatal e h \<longrightarrow>
        reported (stdout h) \<le> int (length (buf h))
        \<and> int (length (buf h)) < reported (stdout h) + sint (size' h))"
proof -
  have one: "read_loop (Suc 0) h0 = Running h1 \<longrightarrow>
      (\<exists>bs. buf h1 = buf h0 @ bs
         \<and> stdout h1 = stdout h0 @ [Println_bytes (buf h1), Printf_received (int (length bs))])"
    using read_loop_one_iteration [of h0 h1] by blast
  have last: "read_loop (Suc 0) h0 = Returned h1 \<or> read_loop (Suc 0) h0 = Fatal e h1 \<longrightarrow>
        stdout h1 = stdout h0
        \<and> (\<exists>bs. buf h1 = buf h0 @ bs \<and> int (length bs) < sint (size' h0))"
    using read_loop_last_iteration [of h0 h1 e] by blast
  have running: "FileServer_read k c = Running h \<longrightarrow> reported (stdout h) = int (length (buf h))"
  proof
    assume "FileServer_read k c = Running h"
    then have "read_loop k (read_init c) = Running h" by (simp add: FileServer_read_def)
    from read_loop_Running [OF this] read_init_fresh [of c]
    show "reported (stdout h) = int (length (buf h))" by auto
  qed
  have ended: "FileServer_read k c = Returned h \<or> FileServer_read k c = Fatal e h \<longrightarrow>
        reported (stdout h) \<le> int (length (buf h))
        \<and> int (length (buf h)) < reported (stdout h) + sint (size' h)"
  proof
    note init = read_init_fresh [of c]
    assume "FileServer_read k c = Returned h \<or> FileServer_read k c = Fatal e h"
    then consider "read_loop k (read_init c) = Returned h" | "read_loop k (read_init c) = Fatal e h"
      by (auto simp: FileServer_read_def)
    then have "buf h = buf (read_init c) @ incoming (conn (read_init c))
       \<and> size' h = size' (read_init c)
       \<and> reported (stdout (read_init c)) \<le> reported (stdout h)
       \<and> reported (stdout h) - reported (stdout (read_init c)) \<le> int (length (incoming (conn (read_init c))))
       \<and> int (length (incoming (conn (read_init c))))
            < reported (stdout h) - reported (stdout (read_init c)) + sint (size' (read_init c))"
    proof cases
      case 1
      from read_loop_Returned [OF this] show ?thesis by simp
    next
      case 2
      from read_loop_Fatal [OF this] show ?thesis by simp
    qed
    with init show "reported (stdout h) \<le> int (length (buf h))
          \<and> int (length (buf h)) < reported (stdout h) + sint (size' h)"
      by simp
  qed
  from one last running ended show ?thesis by blast
qed

theorem reported_counts_and_buffer_witness:
  "read_loop (Suc 0) \<lparr>buf = [], size' = 2, conn = [Data [1, 2, 3]], stdout = []\<rparr> =
     Running \<lparr>buf = [1, 2], size' = 2, conn = [Data [3]], stdout = [Println_bytes [1, 2], Printf_received 2]\<rparr>
   \<and> read_loop (Suc 0)
        \<lparr>buf = [1, 2], size' = 2, conn = [Data [3]], stdout = [Println_bytes [1, 2], Printf_received 2]\<rparr> =
     Returned \<lparr>buf = [1, 2, 3], size' = 2, conn = [], stdout = [Println_bytes [1, 2], Printf_received 2]\<rparr>
   \<and> FileServer_read 1 [Data [2, 0, 0, 0, 0, 0, 0, 0, 1, 2, 3]] =
     Running \<lparr>buf = [1, 2], size' = 2, conn = [Data [3]], stdout = [Println_bytes [1, 2], Printf_received 2]\<rparr>
   \<and> FileServer_read 2 [Data [2, 0, 0, 0, 0, 0, 0, 0, 1, 2, 3]] =
     Returned \<lparr>buf = [1, 2, 3], size' = 2, conn = [], stdout = [Println_bytes [1, 2], Printf_received 2]\<rparr>
   \<and> (\<exists>bs. [1, 2] = [] @ bs \<and> [Println_bytes [1, 2], Printf_received 2] =
          [] @ [Println_bytes [1, 2 :: byte], Printf_received (int (length (bs :: byte list)))])
   \<and> (\<exists>bs. [1, 2, 3] = [1, 2 :: byte] @ bs \<and> int (length bs) < sint (2 :: int64))
   \<and> reported [Println_bytes [1, 2], Printf_received 2] = int (length [1, 2 :: byte])
   \<and> reported [Println_bytes [1, 2], Printf_received 2] \<le> int (length [1, 2, 3 :: byte])
   \<and> int (length [1, 2, 3 :: byte]) < reported [Println_bytes [1, 2], Printf_received 2] + sint (2 :: int64)"
proof -
  let ?h0 = "\<lparr>buf = [], size' = 2 :: int64, conn = [Data [1, 2, 3]], stdout = []\<rparr>"
  let ?h1 = "\<lparr>buf = [1, 2], size' = 2 :: int64, conn = [Data [3]], stdout = [Println_bytes [1, 2], Printf_received 2]\<rparr>"
  let ?h2 = "\<lparr>buf = [1, 2, 3], size' = 2 :: int64, conn = [], stdout = [Println_bytes [1, 2], Printf_received 2]\<rparr>"
  let ?c = "[Data [2, 0, 0, 0, 0, 0, 0, 0, 1, 2, 3]]"
  have a: "read_loop (Suc 0) ?h0 = Running ?h1" by code_simp
  have a': "read_loop (Suc 0) ?h1 = Returned ?h2" by code_simp
  have b: "FileServer_read 1 ?c = Running ?h1" by code_simp
  have c: "FileServer_read 2 ?c = Returned ?h2" by code_simp
  note T1 = reported_counts_and_buffer [of ?h0 ?h1 EOF 1 ?c ?h1]
  note T2 = reported_counts_and_buffer [of ?h1 ?h2 EOF 2 ?c ?h2]
  from T1 a have "\<exists>bs. buf ?h1 = buf ?h0 @ bs
         \<and> stdout ?h1 = stdout ?h0 @ [Println_bytes (buf ?h1), Printf_received (int (length bs))]"
    by blast
  then have 1: "\<exists>bs. [1, 2] = [] @ bs \<and> [Println_bytes [1, 2], Printf_received 2] =
          [] @ [Println_bytes [1, 2 :: byte], Printf_received (int (length (bs :: byte list)))]"
    by simp
  from T1 b have "reported (stdout ?h1) = int (length (buf ?h1))" by blast
  then have 2: "reported [Println_bytes [1, 2], Printf_received 2] = int (length [1, 2 :: byte])"
    by simp
  from T2 a' have "\<exists>bs. buf ?h2 = buf ?h1 @ bs \<and> int (length bs) < sint (size' ?h1)" by blast
  then have 3: "\<exists>bs. [1, 2, 3] = [1, 2 :: byte] @ bs \<and> int (length bs) < sint (2 :: int64)"
    by simp
  from T2 c have "reported (stdout ?h2) \<le> int (length (buf ?h2))
        \<and> int (length (buf ?h2)) < reported (stdout ?h2) + sint (size' ?h2)" by blast
  then have 4: "reported [Println_bytes [1, 2], Printf_received 2] \<le> int (length [1, 2, 3 :: byte])
   \<and> int (length [1, 2, 3 :: byte]) < reported [Println_bytes [1, 2], Printf_received 2] + sint (2 :: int64)"
    by simp
  from a a' b c 1 2 3 4 show ?thesis by blast
qed

text \<open>
  C9 as stated equates the reported sum with the bytes in the buffer when the loop ends.
  With \<open>size = 2\<close> and three payload bytes the loop ends with three bytes in the buffer
  and a reported sum of two.
\<close>

theorem reported_sum_counterexample:
  "FileServer_read 2 [Data [2, 0, 0, 0, 0, 0, 0, 0, 1, 2, 3]] =
     Returned \<lparr>buf = [1, 2, 3], size' = 2, conn = [], stdout = [Println_bytes [1, 2], Printf_received 2]\<rparr>
   \<and> reported [Println_bytes [1, 2], Printf_received 2] \<noteq> int (length [1, 2, 3 :: byte])"
  by code_simp

subsection \<open>C10: the buffer is append-only\<close>

text \<open>
  C10. The buffer is empty when the loop starts. It is never reset or cut: its contents
  after \<open>j\<close> iterations are an initial part of its contents after \<open>k \<ge> j\<close> iterations.
  While the loop runs, the buffer followed by what the connection has yet to deliver is
  the whole stream that followed the prefix, so the buffer is exactly the bytes read so
  far, in the order of arrival; when the loop has ended it is that whole stream. And
  what an iteration prints for inspection is the whole buffer as it then stands. (For a
  connection that delivers a full prefix, the stream that follows the prefix is the
  incoming stream without its first 8 bytes.)
\<close>

theorem buffer_append_only:
  "buf (read_init c) = []
   \<and> (8 \<le> length (incoming c) \<longrightarrow> incoming (conn (read_init c)) = drop 8 (incoming c))
   \<and> (j \<le> k \<longrightarrow> prefix (buf (state_of (FileServer_read j c))) (buf (state_of (FileServer_read k c))))
   \<and> (FileServer_read k c = Running h \<longrightarrow>
        buf h @ incoming (conn h) = incoming (conn (read_init c)))
   \<and> (FileServer_read k c = Returned h \<or> FileServer_read k c = Fatal e h \<longrightarrow>
        buf h = incoming (conn (read_init c)))
   \<and> (FileServer_read (Suc k) c = Running h \<longrightarrow>
        (\<exists>out r. stdout h = out @ [Println_bytes (buf h), Printf_received r]))"
proof -
  note init = read_init_fresh [of c]
  have prefix_read: "8 \<le> length (incoming c) \<longrightarrow> incoming (conn (read_init c)) = drop 8 (incoming c)"
    using read_init_enough [of c] by auto
  have mono: "j \<le> k \<longrightarrow>
      prefix (buf (state_of (FileServer_read j c))) (buf (state_of (FileServer_read k c)))"
    unfolding FileServer_read_def using read_loop_buf_mono [of j k "read_init c"] by blast
  have running: "FileServer_read k c = Running h \<longrightarrow>
        buf h @ incoming (conn h) = incoming (conn (read_init c))"
  proof
    assume "FileServer_read k c = Running h"
    then have "read_loop k (read_init c) = Running h" by (simp add: FileServer_read_def)
    from read_loop_Running [OF this] init
    show "buf h @ incoming (conn h) = incoming (conn (read_init c))" by auto
  qed
  have ended: "FileServer_read k c = Returned h \<or> FileServer_read k c = Fatal e h \<longrightarrow>
        buf h = incoming (conn (read_init c))"
  proof
    assume "FileServer_read k c = Returned h \<or> FileServer_read k c = Fatal e h"
    then consider "read_loop k (read_init c) = Returned h" | "read_loop k (read_init c) = Fatal e h"
      by (auto simp: FileServer_read_def)
    then show "buf h = incoming (conn (read_init c))"
    proof cases
      case 1
      from read_loop_Returned [OF this] init show ?thesis by simp
    next
      case 2
      from read_loop_Fatal [OF this] init show ?thesis by simp
    qed
  qed
  have surfaced: "FileServer_read (Suc k) c = Running h \<longrightarrow>
        (\<exists>out r. stdout h = out @ [Println_bytes (buf h), Printf_received r])"
    unfolding FileServer_read_def using read_loop_prints_buffer [of k "read_init c" h] by blast
  from init(1) prefix_read mono running ended surfaced show ?thesis by blast
qed

theorem buffer_append_only_witness:
  "8 \<le> length (incoming [Data [2, 0, 0, 0, 0, 0, 0, 0, 1, 2], Data [3, 4, 5]])
   \<and> buf (read_init [Data [2, 0, 0, 0, 0, 0, 0, 0, 1, 2], Data [3, 4, 5]]) = []
   \<and> incoming (conn (read_init [Data [2, 0, 0, 0, 0, 0, 0, 0, 1, 2], Data [3, 4, 5]])) = [1, 2, 3, 4, 5]
   \<and> FileServer_read 1 [Data [2, 0, 0, 0, 0, 0, 0, 0, 1, 2], Data [3, 4, 5]] =
        Running \<lparr>buf = [1, 2], size' = 2, conn = [Data [3, 4, 5]],
          stdout = [Println_bytes [1, 2], Printf_received 2]\<rparr>
   \<and> FileServer_read 2 [Data [2, 0, 0, 0, 0, 0, 0, 0, 1, 2], Data [3, 4, 5]] =
        Running \<lparr>buf = [1, 2, 3, 4], size' = 2, conn = [Data [5]],
          stdout = [Println_bytes [1, 2], Printf_received 2, Println_bytes [1, 2, 3, 4], Printf_received 2]\<rparr>
   \<and> FileServer_read 3 [Data [2, 0, 0, 0, 0, 0, 0, 0, 1, 2], Data [3, 4, 5]] =
        Returned \<lparr>buf = [1, 2, 3, 4, 5], size' = 2, conn = [],
          stdout = [Println_bytes [1, 2], Printf_received 2, Println_bytes [1, 2, 3, 4], Printf_received 2]\<rparr>
   \<and> prefix [1, 2 :: byte] [1, 2, 3, 4]
   \<and> [1, 2, 3, 4] @ incoming [Data [5]] = [1, 2, 3, 4, 5]
   \<and> (\<exists>out r. [Println_bytes [1, 2], Printf_received 2, Println_bytes [1, 2, 3, 4], Printf_received 2] =
          out @ [Println_bytes [1, 2, 3, 4], Printf_received r])"
proof -
  let ?c = "[Data [2, 0, 0, 0, 0, 0, 0, 0, 1, 2], Data [3, 4, 5]]"
  let ?h1 = "\<lparr>buf = [1, 2], size' = 2 :: int64, conn = [Data [3, 4, 5]],
          stdout = [Println_bytes [1, 2], Printf_received 2]\<rparr>"
  let ?h2 = "\<lparr>buf = [1, 2, 3, 4], size' = 2 :: int64, conn = [Data [5]],
          stdout = [Println_bytes [1, 2], Printf_received 2, Println_bytes [1, 2, 3, 4], Printf_received 2]\<rparr>"
  let ?h3 = "\<lparr>buf = [1, 2, 3, 4, 5], size' = 2 :: int64, conn = [],
          stdout = [Println_bytes [1, 2], Printf_received 2, Println_bytes [1, 2, 3, 4], Printf_received 2]\<rparr>"
  have len: "8 \<le> length (incoming ?c)" by simp
  have r1: "FileServer_read 1 ?c = Running ?h1" by code_simp
  have r2: "FileServer_read 2 ?c = Running ?h2" by code_simp
  have r2': "FileServer_read (Suc 1) ?c = Running ?h2" by code_simp
  have r3: "FileServer_read 3 ?c = Returned ?h3" by code_simp
  have le: "(1::nat) \<le> 2" by simp
  note T = buffer_append_only [of ?c 1 2 ?h2 EOF]
  from T have a1: "buf (read_init ?c) = []" by blast
  from T len have "incoming (conn (read_init ?c)) = drop 8 (incoming ?c)" by blast
  then have a2: "incoming (conn (read_init ?c)) = [1, 2, 3, 4, 5]" by simp
  from T le have "prefix (buf (state_of (FileServer_read 1 ?c))) (buf (state_of (FileServer_read 2 ?c)))"
    by blast
  then have a3: "prefix [1, 2 :: byte] [1, 2, 3, 4]" by (simp add: r1 r2)
  from T r2 have "buf ?h2 @ incoming (conn ?h2) = incoming (conn (read_init ?c))" by blast
  then have a4: "[1, 2, 3, 4] @ incoming [Data [5]] = [1, 2, 3, 4, 5]" by (simp add: a2)
  from buffer_append_only [of ?c 1 1 ?h2 EOF] r2'
  have "\<exists>out r. stdout ?h2 = out @ [Println_bytes (buf ?h2), Printf_received r]" by blast
  then obtain out r where "stdout ?h2 = out @ [Println_bytes (buf ?h2), Printf_received r]" by blast
  then have "[Println_bytes [1, 2], Printf_received 2, Println_bytes [1, 2, 3, 4], Printf_received 2] =
          out @ [Println_bytes [1, 2, 3, 4], Printf_received r]" by simp
  then have a5: "\<exists>out r. [Println_bytes [1, 2], Printf_received 2, Println_bytes [1, 2, 3, 4], Printf_received 2] =
          out @ [Println_bytes [1, 2, 3, 4], Printf_received r]" by blast
  from buffer_append_only [of ?c 1 3 ?h3 EOF] r3
  have "buf ?h3 = incoming (conn (read_init ?c))" by blast
  from len a1 a2 a3 a4 a5 r1 r2 r3 show ?thesis by blast
qed

end
